theory Spec2Isabelle
  imports Main "HOL-Library.Word" "HOL-Library.Sublist"
begin

unbundle bit_operations_syntax

section \<open>The two GPIO lines and the busy-wait delay\<close>

text \<open>
  Modelled from the spec: the SDK's \<open>GPIO_SetActive\<close>, \<open>GPIO_SetInactive\<close>,
  \<open>GPIO_GetPinStatus\<close> and \<open>arch_asm_delay_us\<close> are not in the driver file. The spec's
  GPIO boundary is two digital lines, the clock output SCK driven high or low by the
  driver and the data input DOUT read by it, and all delays are blocking spins. What the
  program does to the lines is recorded as a chronological list of events. What DOUT
  shows is not decided by the program: \<open>dout s k\<close> is the level that the \<open>k\<close>-th call of
  \<open>GPIO_GetPinStatus\<close> on DOUT sees (counted from 0 over the whole run), and \<open>polls s\<close>
  counts the calls made so far. Every behaviour of the chip is some such function.
\<close>

datatype gpio_event = SCK_High | SCK_Low | DOUT_Sample bool | Delay_us nat

record hw =
  dout :: "nat \<Rightarrow> bool"
  polls :: nat
  events :: "gpio_event list"

type_synonym int32 = "32 word"

definition INT32_MIN :: int32 where
  "INT32_MIN = 0x80000000"

definition INT32_MAX :: int32 where
  "INT32_MAX = 0x7FFFFFFF"

definition HX711_SETTLE_TIME_US :: nat where
  "HX711_SETTLE_TIME_US = 100"

definition HX711_CLOCK_HIGH_US :: nat where
  "HX711_CLOCK_HIGH_US = 1"

definition HX711_CLOCK_LOW_US :: nat where
  "HX711_CLOCK_LOW_US = 1"

definition HX711_TIMEOUT_COUNT :: nat where
  "HX711_TIMEOUT_COUNT = 50000"

definition HX711_POWER_UP_TIME_MS :: nat where
  "HX711_POWER_UP_TIME_MS = 100"

text \<open>\<open>GPIO_SetActive(HX711_SCK_PORT, HX711_SCK_PIN)\<close>: drive SCK high.\<close>

definition GPIO_SetActive_SCK :: "hw \<Rightarrow> hw" where
  "GPIO_SetActive_SCK s = s\<lparr>events := events s @ [SCK_High]\<rparr>"

text \<open>\<open>GPIO_SetInactive(HX711_SCK_PORT, HX711_SCK_PIN)\<close>: drive SCK low.\<close>

definition GPIO_SetInactive_SCK :: "hw \<Rightarrow> hw" where
  "GPIO_SetInactive_SCK s = s\<lparr>events := events s @ [SCK_Low]\<rparr>"

text \<open>\<open>GPIO_GetPinStatus(HX711_DOUT_PORT, HX711_DOUT_PIN)\<close>: sample DOUT once.\<close>

definition GPIO_GetPinStatus_DOUT :: "hw \<Rightarrow> bool \<times> hw" where
  "GPIO_GetPinStatus_DOUT s =
     (dout s (polls s),
      s\<lparr>polls := Suc (polls s), events := events s @ [DOUT_Sample (dout s (polls s))]\<rparr>)"

definition arch_asm_delay_us :: "nat \<Rightarrow> hw \<Rightarrow> hw" where
  "arch_asm_delay_us n s = s\<lparr>events := events s @ [Delay_us n]\<rparr>"

section \<open>Power sequencing\<close>

definition hx711_is_ready :: "hw \<Rightarrow> bool \<times> hw" where
  "hx711_is_ready s = (let (b, s1) = GPIO_GetPinStatus_DOUT s in (\<not> b, s1))"

text \<open>
  \<open>HX711_DEBUG\<close> is 1, so the debug block of \<open>hx711_power_up\<close> is compiled in: DOUT is
  sampled once after the delay, and the sample is ignored.
\<close>

definition hx711_power_up :: "hw \<Rightarrow> hw" where
  "hx711_power_up s =
     (let s1 = GPIO_SetInactive_SCK s;
          s2 = arch_asm_delay_us (HX711_POWER_UP_TIME_MS * 1000) s1;
          (b, s3) = GPIO_GetPinStatus_DOUT s2
      in s3)"

definition hx711_power_down :: "hw \<Rightarrow> hw" where
  "hx711_power_down s = arch_asm_delay_us 60 (GPIO_SetActive_SCK s)"

text \<open>
  The wait loop of \<open>hx711_init\<close>:
  \<open>while (!hx711_is_ready() && timeout > 0) { arch_asm_delay_us(10); timeout--; }\<close>.
  The counter is a \<open>uint32_t\<close> that starts at 50000 and is only decremented while it
  is positive, so it never wraps and is a \<open>nat\<close> here.
\<close>

function hx711_init_wait :: "nat \<Rightarrow> hw \<Rightarrow> nat \<times> hw" where
  "hx711_init_wait timeout s =
     (if \<not> fst (hx711_is_ready s) \<and> 0 < timeout
      then hx711_init_wait (timeout - 1) (arch_asm_delay_us 10 (snd (hx711_is_ready s)))
      else (timeout, snd (hx711_is_ready s)))"
  by pat_completeness auto
termination
  by (relation "measure (\<lambda>(timeout, s). timeout)") auto

declare hx711_init_wait.simps [simp del]

definition hx711_init :: "hw \<Rightarrow> hw" where
  "hx711_init s =
     (let s1 = GPIO_SetInactive_SCK s;
          s2 = hx711_power_up s1;
          (timeout, s3) = hx711_init_wait HX711_TIMEOUT_COUNT s2
      in s3)"

section \<open>The raw protocol read\<close>

text \<open>
  The ready-wait loop of \<open>hx711_read_improved\<close>:
  \<open>while (GPIO_GetPinStatus(DOUT)) { if (timeout == 0) return INT32_MIN; timeout--;
  arch_asm_delay_us(1); }\<close>.
  The result is \<open>True\<close> when the loop leaves through the \<open>return INT32_MIN\<close>. As in
  \<open>hx711_init_wait\<close> the counter never wraps.
\<close>

function wait_ready :: "nat \<Rightarrow> hw \<Rightarrow> bool \<times> hw" where
  "wait_ready timeout s =
     (if fst (GPIO_GetPinStatus_DOUT s)
      then (if timeout = 0 then (True, snd (GPIO_GetPinStatus_DOUT s))
            else wait_ready (timeout - 1) (arch_asm_delay_us 1 (snd (GPIO_GetPinStatus_DOUT s))))
      else (False, snd (GPIO_GetPinStatus_DOUT s)))"
  by pat_completeness auto
termination
  by (relation "measure (\<lambda>(timeout, s). timeout)") auto

declare wait_ready.simps [simp del]

text \<open>
  The loop \<open>for (i = 0; i < 24; i++)\<close> that clocks the frame out. \<open>value\<close> is an
  \<open>int32_t\<close>; it starts at 0 and is shifted at most 24 times, so the shift never reaches
  the sign bit and the 32-bit word shift is what the C does.
\<close>

function read_bits :: "nat \<Rightarrow> int32 \<Rightarrow> hw \<Rightarrow> int32 \<times> hw" where
  "read_bits i val s =
     (if i < 24 then
        (let s1 = GPIO_SetActive_SCK s;
             s2 = arch_asm_delay_us HX711_CLOCK_HIGH_US s1;
             val1 = push_bit 1 val;
             s3 = GPIO_SetInactive_SCK s2;
             s4 = arch_asm_delay_us HX711_CLOCK_LOW_US s3;
             (b, s5) = GPIO_GetPinStatus_DOUT s4;
             val2 = (if b then val1 OR 1 else val1)
         in read_bits (i + 1) val2 s5)
      else (val, s))"
  by pat_completeness auto
termination
  by (relation "measure (\<lambda>(i, val, s). 24 - i)") auto

declare read_bits.simps [simp del]

text \<open>The last step of the read: 24-bit two's complement to signed 32-bit.\<close>

definition sign_extend :: "int32 \<Rightarrow> int32" where
  "sign_extend val = (if val AND 0x800000 \<noteq> 0 then val OR 0xFF000000 else val)"

text \<open>
  After the 25th pulse DOUT is sampled once more; the \<open>if\<close> that tests the sample has an
  empty body (only comments), so the sample \<open>b\<close> is not used.
\<close>

definition hx711_read_improved :: "hw \<Rightarrow> int32 \<times> hw" where
  "hx711_read_improved s =
     (let s1 = GPIO_SetInactive_SCK s;
          s2 = arch_asm_delay_us HX711_SETTLE_TIME_US s1;
          (timed_out, s3) = wait_ready HX711_TIMEOUT_COUNT s2
      in if timed_out then (INT32_MIN, s3)
         else
           (let (val, s4) = read_bits 0 0 s3;
                s5 = GPIO_SetActive_SCK s4;
                s6 = arch_asm_delay_us HX711_CLOCK_HIGH_US s5;
                s7 = GPIO_SetInactive_SCK s6;
                s8 = arch_asm_delay_us HX711_CLOCK_LOW_US s7;
                s9 = arch_asm_delay_us 10 s8;
                (b, s10) = GPIO_GetPinStatus_DOUT s9
            in (sign_extend val, s10)))"

section \<open>The retrying read\<close>

text \<open>
  The local \<open>result\<close> of \<open>hx711_read_with_retry\<close> is declared without an initialiser:
  it is \<open>None\<close> until the first assignment. \<open>retry_count\<close> and \<open>max_retries\<close> are
  \<open>uint8_t\<close>.
\<close>

function retry_loop :: "8 word \<Rightarrow> 8 word \<Rightarrow> int32 option \<Rightarrow> hw \<Rightarrow> int32 option \<times> hw" where
  "retry_loop max_retries retry_count result s =
     (if retry_count < max_retries then
        (let (r, s1) = hx711_read_improved s
         in if r \<noteq> INT32_MIN \<and> r \<noteq> INT32_MAX then (Some r, s1)
            else
              (let s2 = (if r = INT32_MIN
                         then hx711_power_up (arch_asm_delay_us 1000 (hx711_power_down s1))
                         else s1);
                   s3 = arch_asm_delay_us 10000 s2
               in retry_loop max_retries (retry_count + 1) (Some r) s3))
      else (result, s))"
  by pat_completeness auto
termination
proof (relation "measure (\<lambda>(max_retries, retry_count, result, s). unat max_retries - unat retry_count)")
  show "wf (measure (\<lambda>(max_retries, retry_count, result, s). unat max_retries - unat retry_count))"
    by simp
next
  fix max_retries retry_count :: "8 word" and result :: "int32 option" and s x :: hw
    and xa :: int32 and y xb xc :: hw
  assume lt: "retry_count < max_retries"
  then have lt': "unat retry_count < unat max_retries"
    by (simp add: word_less_nat_alt)
  moreover have "unat max_retries < 256"
    using unsigned_less [of max_retries, where 'a = nat] by simp
  ultimately have "unat (retry_count + 1) = unat retry_count + 1"
    by (simp add: unat_word_ariths)
  then show "((max_retries, retry_count + 1, Some xa, xc), max_retries, retry_count, result, s)
      \<in> measure (\<lambda>(max_retries, retry_count, result, s). unat max_retries - unat retry_count)"
    using lt' by simp
qed

declare retry_loop.simps [simp del]

definition hx711_read_with_retry :: "8 word \<Rightarrow> hw \<Rightarrow> int32 option \<times> hw" where
  "hx711_read_with_retry max_retries s = retry_loop max_retries 0 None s"

section \<open>The periodic sampling callback\<close>

text \<open>
  Modelled from the spec: the SDK's timer handle type with its macro
  \<open>EASY_TIMER_INVALID_TIMER\<close> is not in the driver file. The spec has an opaque timer
  handle and an invalid-handle sentinel: a handle is the sentinel or some other handle.
\<close>

datatype ke_msg_id = EASY_TIMER_INVALID_TIMER | Timer_Handle nat

text \<open>
  Modelled from the spec: \<open>ke_state_get\<close> and the state \<open>APP_CONNECTED\<close> are not in the
  driver file. The spec has a query for the current connection state, connected or not.
\<close>

datatype ke_state = APP_CONNECTED | APP_NOT_CONNECTED

text \<open>
  Modelled from the spec: the message macros \<open>KE_MSG_ALLOC_DYN\<close>, \<open>KE_MSG_FREE\<close>,
  \<open>KE_MSG_SEND\<close> and \<open>attmdb_att_set_value\<close> are not in the driver file. They are logged
  in the order the callback calls them, the attribute write and the notification with
  the byte-swapped sample they carry.
\<close>

datatype ble_event = Msg_Alloc | Msg_Free | Att_Set_Value int32 | Msg_Send int32

text \<open>
  The state the callback works on: the lines, its \<open>static\<close> locals \<open>adc_timer\<close> and
  \<open>consecutive_errors\<close>, the global \<open>adc_val_1\<close> (declared elsewhere, taken to be 32
  bits wide), what \<open>ke_state_get(TASK_APP)\<close> returns (\<open>app_state\<close>), the handle that the
  \<open>k\<close>-th call of \<open>app_easy_timer\<close> returns (\<open>next_timer a k\<close>), the number of such calls
  so far, and the message log.
\<close>

record app =
  gpio :: hw
  adc_timer :: ke_msg_id
  consecutive_errors :: "8 word"
  adc_val_1 :: int32
  app_state :: ke_state
  next_timer :: "nat \<Rightarrow> ke_msg_id"
  timers_created :: nat
  ble_events :: "ble_event list"

text \<open>
  \<open>static uint8_t max_consecutive_errors = 5;\<close> is never assigned, and no other function
  can reach it.
\<close>

definition max_consecutive_errors :: "8 word" where
  "max_consecutive_errors = 5"

text \<open>
  Modelled from the spec: \<open>app_easy_timer\<close> is not in the driver file. The spec has a
  reschedule primitive that takes a fixed delay and the callback and returns an opaque
  timer handle; both arguments are the same at every call and are left out.
\<close>

definition app_easy_timer :: "app \<Rightarrow> ke_msg_id \<times> app" where
  "app_easy_timer a = (next_timer a (timers_created a), a\<lparr>timers_created := Suc (timers_created a)\<rparr>)"

text \<open>\<open>__builtin_bswap32\<close>: the four bytes of a 32-bit value in reverse order.\<close>

definition bswap32 :: "int32 \<Rightarrow> int32" where
  "bswap32 x =
     push_bit 24 (x AND 0xFF) OR push_bit 8 (x AND 0xFF00) OR
     (drop_bit 8 x AND 0xFF00) OR (drop_bit 24 x AND 0xFF)"

text \<open>
  The callback asks for three attempts. Comparing an unassigned \<open>result\<close> would be
  undefined behaviour; the model returns \<open>None\<close> there.
\<close>

definition app_adcval1_timer_cb_handler_improved :: "app \<Rightarrow> app option" where
  "app_adcval1_timer_cb_handler_improved a =
     (let a1 = a\<lparr>ble_events := ble_events a @ [Msg_Alloc]\<rparr>;
          (hx_val, g) = hx711_read_with_retry 3 (gpio a1);
          a2 = a1\<lparr>gpio := g\<rparr>
      in case hx_val of
           None \<Rightarrow> None
         | Some hx \<Rightarrow>
             if hx = INT32_MIN \<or> hx = INT32_MAX then
               (let a3 = a2\<lparr>consecutive_errors := consecutive_errors a2 + 1\<rparr>;
                    a4 = (if max_consecutive_errors \<le> consecutive_errors a3
                          then a3\<lparr>gpio := hx711_init (gpio a3), consecutive_errors := 0\<rparr>
                          else a3);
                    a5 = a4\<lparr>ble_events := ble_events a4 @ [Msg_Free]\<rparr>;
                    a6 = (if app_state a5 = APP_CONNECTED
                          then (let (t, a') = app_easy_timer a5 in a'\<lparr>adc_timer := t\<rparr>)
                          else a5)
                in Some a6)
             else
               (let a3 = a2\<lparr>consecutive_errors := 0, adc_val_1 := hx\<rparr>;
                    big_endian_val = bswap32 (adc_val_1 a3);
                    a4 = a3\<lparr>ble_events := ble_events a3 @
                            [Att_Set_Value big_endian_val, Msg_Send big_endian_val]\<rparr>;
                    a5 = (if app_state a4 = APP_CONNECTED
                          then (let (t, a') = app_easy_timer a4 in a'\<lparr>adc_timer := t\<rparr>)
                          else a4\<lparr>adc_timer := EASY_TIMER_INVALID_TIMER\<rparr>)
                in Some a5))"

section \<open>Reference behaviour used in the statements\<close>

text \<open>What the ready-wait loop does to the lines when DOUT stays high for \<open>t + 1\<close> polls.\<close>

definition timeout_wait_events :: "nat \<Rightarrow> gpio_event list" where
  "timeout_wait_events t =
     concat (replicate t [DOUT_Sample True, Delay_us 1]) @ [DOUT_Sample True]"

text \<open>The same loop when DOUT is high for \<open>j\<close> polls and low at the next one.\<close>

definition ready_wait_events :: "nat \<Rightarrow> gpio_event list" where
  "ready_wait_events j =
     concat (replicate j [DOUT_Sample True, Delay_us 1]) @ [DOUT_Sample False]"

text \<open>A whole raw read that runs into the timeout.\<close>

definition timeout_read_events :: "gpio_event list" where
  "timeout_read_events =
     [SCK_Low, Delay_us HX711_SETTLE_TIME_US] @ timeout_wait_events HX711_TIMEOUT_COUNT"

text \<open>
  The recovery pair of the retrying read: power down, 1 ms, power up; \<open>b\<close> is the level
  that the debug sample of \<open>hx711_power_up\<close> sees.
\<close>

definition recovery_events :: "bool \<Rightarrow> gpio_event list" where
  "recovery_events b =
     [SCK_High, Delay_us 60, Delay_us 1000, SCK_Low, Delay_us 100000, DOUT_Sample b]"

text \<open>
  One pass of the retry loop whose read timed out: the read, the recovery pair, the 10 ms
  delay.
\<close>

definition timeout_cycle :: "hw \<Rightarrow> hw" where
  "timeout_cycle s =
     arch_asm_delay_us 10000
       (hx711_power_up (arch_asm_delay_us 1000 (hx711_power_down (snd (hx711_read_improved s)))))"

text \<open>
  One pass of the retry loop whose read returned either sentinel: the recovery pair is
  there only after \<open>INT32_MIN\<close>.
\<close>

definition failed_cycle :: "hw \<Rightarrow> hw" where
  "failed_cycle s =
     arch_asm_delay_us 10000
       (if fst (hx711_read_improved s) = INT32_MIN
        then hx711_power_up (arch_asm_delay_us 1000 (hx711_power_down (snd (hx711_read_improved s))))
        else snd (hx711_read_improved s))"

text \<open>
  The 24-bit two's-complement code of \<open>x\<close> as an unsigned number, and its bit string,
  most significant bit first.
\<close>

definition code24 :: "int \<Rightarrow> int" where
  "code24 x = (if x < 0 then x + 2 ^ 24 else x)"

definition encode24 :: "int \<Rightarrow> bool list" where
  "encode24 x = map (\<lambda>k. odd (code24 x div 2 ^ (23 - k))) [0..<24]"

text \<open>A DOUT line that is stuck high, and one that is stuck low, before anything was done.\<close>

definition stuck_high :: hw where
  "stuck_high = \<lparr>dout = (\<lambda>k. True), polls = 0, events = []\<rparr>"

definition stuck_low :: hw where
  "stuck_low = \<lparr>dout = (\<lambda>k. False), polls = 0, events = []\<rparr>"

text \<open>
  A line that is high for the first \<open>n\<close> polls, then ready, then sends the frame of
  \<open>x\<close>, and is high from then on.
\<close>

definition sends_frame_after :: "nat \<Rightarrow> int \<Rightarrow> hw" where
  "sends_frame_after n x =
     \<lparr>dout = (\<lambda>k. if k < n then True else if k = n then False
                   else if k < n + 25 then encode24 x ! (k - n - 1) else True),
      polls = 0, events = []\<rparr>"

text \<open>What one timed-out pass of the retry loop does to the lines while DOUT stays high.\<close>

definition timeout_cycle_events :: "gpio_event list" where
  "timeout_cycle_events = timeout_read_events @ recovery_events True @ [Delay_us 10000]"

text \<open>The callback's state before its first run: the initial values of the statics.\<close>

definition app_start :: "hw \<Rightarrow> ke_state \<Rightarrow> app" where
  "app_start g st =
     \<lparr>gpio = g, adc_timer = EASY_TIMER_INVALID_TIMER, consecutive_errors = 0, adc_val_1 = 0,
      app_state = st, next_timer = Timer_Handle, timers_created = 0, ble_events = []\<rparr>"

section \<open>Facts about the primitives and the loops\<close>

lemma GPIO_GetPinStatus_DOUT_simps [simp]:
  "fst (GPIO_GetPinStatus_DOUT s) = dout s (polls s)"
  "dout (snd (GPIO_GetPinStatus_DOUT s)) = dout s"
  "polls (snd (GPIO_GetPinStatus_DOUT s)) = Suc (polls s)"
  "events (snd (GPIO_GetPinStatus_DOUT s)) = events s @ [DOUT_Sample (dout s (polls s))]"
  by (simp_all add: GPIO_GetPinStatus_DOUT_def)

lemma arch_asm_delay_us_simps [simp]:
  "dout (arch_asm_delay_us n s) = dout s"
  "polls (arch_asm_delay_us n s) = polls s"
  "events (arch_asm_delay_us n s) = events s @ [Delay_us n]"
  by (simp_all add: arch_asm_delay_us_def)

lemma GPIO_SetActive_SCK_simps [simp]:
  "dout (GPIO_SetActive_SCK s) = dout s"
  "polls (GPIO_SetActive_SCK s) = polls s"
  "events (GPIO_SetActive_SCK s) = events s @ [SCK_High]"
  by (simp_all add: GPIO_SetActive_SCK_def)

lemma GPIO_SetInactive_SCK_simps [simp]:
  "dout (GPIO_SetInactive_SCK s) = dout s"
  "polls (GPIO_SetInactive_SCK s) = polls s"
  "events (GPIO_SetInactive_SCK s) = events s @ [SCK_Low]"
  by (simp_all add: GPIO_SetInactive_SCK_def)

lemma hw_eqI:
  "dout a = dout b \<Longrightarrow> polls a = polls b \<Longrightarrow> events a = events b \<Longrightarrow> (a :: hw) = b"
  by simp

lemma wait_ready_timeout:
  "(\<And>k. k \<le> t \<Longrightarrow> dout s (polls s + k)) \<Longrightarrow>
   wait_ready t s =
     (True, s\<lparr>polls := polls s + t + 1, events := events s @ timeout_wait_events t\<rparr>)"
proof (induction t arbitrary: s)
  case 0
  from "0" [of 0] show ?case
    by (subst wait_ready.simps) (simp add: timeout_wait_events_def GPIO_GetPinStatus_DOUT_def)
next
  case (Suc t)
  let ?s' = "arch_asm_delay_us 1 (snd (GPIO_GetPinStatus_DOUT s))"
  have now: "dout s (polls s)"
    using Suc.prems [of 0] by simp
  have later: "dout ?s' (polls ?s' + k)" if "k \<le> t" for k
    using Suc.prems [of "Suc k"] that by simp
  have "wait_ready (Suc t) s = wait_ready t ?s'"
    by (subst wait_ready.simps) (simp add: now)
  also have "\<dots> = (True, ?s'\<lparr>polls := polls ?s' + t + 1,
      events := events ?s' @ timeout_wait_events t\<rparr>)"
    using later by (rule Suc.IH)
  also have "?s'\<lparr>polls := polls ?s' + t + 1, events := events ?s' @ timeout_wait_events t\<rparr>
      = s\<lparr>polls := polls s + Suc t + 1, events := events s @ timeout_wait_events (Suc t)\<rparr>"
    by (rule hw_eqI) (simp_all add: now timeout_wait_events_def)
  finally show ?case .
qed

lemma wait_ready_ready:
  "j \<le> t \<Longrightarrow> (\<And>k. k < j \<Longrightarrow> dout s (polls s + k)) \<Longrightarrow> \<not> dout s (polls s + j) \<Longrightarrow>
   wait_ready t s =
     (False, s\<lparr>polls := polls s + j + 1, events := events s @ ready_wait_events j\<rparr>)"
proof (induction j arbitrary: s t)
  case 0
  then show ?case
    by (subst wait_ready.simps) (simp add: ready_wait_events_def GPIO_GetPinStatus_DOUT_def)
next
  case (Suc j)
  let ?s' = "arch_asm_delay_us 1 (snd (GPIO_GetPinStatus_DOUT s))"
  have now: "dout s (polls s)"
    using Suc.prems(2) [of 0] by simp
  have later: "dout ?s' (polls ?s' + k)" if "k < j" for k
    using Suc.prems(2) [of "Suc k"] that by simp
  have low: "\<not> dout ?s' (polls ?s' + j)"
    using Suc.prems(3) by simp
  have pos: "t \<noteq> 0" and le: "j \<le> t - 1"
    using Suc.prems(1) by simp_all
  have "wait_ready t s = wait_ready (t - 1) ?s'"
    by (subst wait_ready.simps) (simp add: now pos)
  also have "\<dots> = (False, ?s'\<lparr>polls := polls ?s' + j + 1,
      events := events ?s' @ ready_wait_events j\<rparr>)"
    using le later low by (rule Suc.IH)
  also have "?s'\<lparr>polls := polls ?s' + j + 1, events := events ?s' @ ready_wait_events j\<rparr>
      = s\<lparr>polls := polls s + Suc j + 1, events := events s @ ready_wait_events (Suc j)\<rparr>"
    by (rule hw_eqI) (simp_all add: now ready_wait_events_def)
  finally show ?case .
qed

lemma bit_int_0x800000: "bit (0x800000 :: int) n \<longleftrightarrow> n = 23"
proof -
  have "(0x800000 :: int) = push_bit 23 1" by simp
  then show ?thesis by (simp only: bit_simps) auto
qed

lemma bit_int_0xFF000000: "bit (0xFF000000 :: int) n \<longleftrightarrow> 24 \<le> n \<and> n < 32"
proof -
  have "(0xFF000000 :: int) = push_bit 24 (mask 8)" by (simp add: mask_eq_exp_minus_1)
  then show ?thesis by (simp only: bit_simps) auto
qed

lemma and_0x800000: "(v AND 0x800000 \<noteq> 0) \<longleftrightarrow> bit (v :: int32) 23"
proof
  assume "v AND 0x800000 \<noteq> 0"
  then obtain n where "bit (v AND 0x800000) n"
    by (auto simp: bit_eq_iff)
  then show "bit v 23" by (auto simp: bit_and_iff bit_int_0x800000)
next
  assume "bit v 23"
  then have "bit (v AND 0x800000) 23" by (simp add: bit_and_iff bit_int_0x800000)
  then show "v AND 0x800000 \<noteq> 0" by auto
qed

lemma bit_sign_extend:
  assumes "\<forall>n. bit v n \<longrightarrow> n < 24"
  shows "bit (sign_extend v) n \<longleftrightarrow> n < 32 \<and> bit v (min 23 n)"
proof (cases "bit v 23")
  case True
  then have "sign_extend v = v OR 0xFF000000"
    by (simp add: sign_extend_def and_0x800000)
  then show ?thesis
    using True assms bit_imp_le_length [of v n]
    by (cases "n = 23") (auto simp: bit_or_iff bit_int_0xFF000000 min_def)
next
  case False
  then have "sign_extend v = v"
    by (simp add: sign_extend_def and_0x800000)
  then show ?thesis
    using False assms bit_imp_le_length [of v n]
    by (cases "n = 23") (auto simp: min_def)
qed

lemma sint_sign_extend:
  assumes "\<forall>n. bit v n \<longrightarrow> n < 24"
  shows "sint (sign_extend v) = signed_take_bit 23 (uint v)"
proof -
  have "sign_extend v = word_of_int (signed_take_bit 23 (uint v))"
    by (rule bit_word_eqI) (auto simp: bit_sign_extend [OF assms] bit_word_of_int_iff bit_signed_take_bit_iff bit_uint_iff)
  then have "sint (sign_extend v) = signed_take_bit 31 (signed_take_bit 23 (uint v))"
    by (simp add: sint_sbintrunc')
  then show ?thesis by simp
qed

lemma sint_sign_extend_range:
  assumes "\<forall>n. bit v n \<longrightarrow> n < 24"
  shows "- (2 ^ 23) \<le> sint (sign_extend v)" and "sint (sign_extend v) < 2 ^ 23"
  using signed_take_bit_int_greater_eq_minus_exp [of 23 "uint v"]
    signed_take_bit_int_less_exp [of 23 "uint v"]
  by (simp_all add: sint_sign_extend [OF assms])

lemma read_bits_step:
  "i < 24 \<Longrightarrow> read_bits i val s =
     read_bits (i + 1) (if dout s (polls s) then push_bit 1 val OR 1 else push_bit 1 val)
       (snd (GPIO_GetPinStatus_DOUT (arch_asm_delay_us HX711_CLOCK_LOW_US (GPIO_SetInactive_SCK
          (arch_asm_delay_us HX711_CLOCK_HIGH_US (GPIO_SetActive_SCK s))))))"
  by (subst read_bits.simps) (simp add: Let_def split_beta)

lemma read_bits_done: "\<not> i < 24 \<Longrightarrow> read_bits i val s = (val, s)"
  by (subst read_bits.simps) simp

lemma read_bits_state:
  "i \<le> 24 \<Longrightarrow> dout (snd (read_bits i val s)) = dout s \<and>
     polls (snd (read_bits i val s)) = polls s + (24 - i)"
proof (induction k \<equiv> "24 - i" arbitrary: i val s)
  case 0
  then show ?case by (simp add: read_bits_done)
next
  case (Suc k)
  then have lt: "i < 24" and k: "k = 24 - (i + 1)" and le: "i + 1 \<le> 24"
    by simp_all
  let ?s' = "snd (GPIO_GetPinStatus_DOUT (arch_asm_delay_us HX711_CLOCK_LOW_US
    (GPIO_SetInactive_SCK (arch_asm_delay_us HX711_CLOCK_HIGH_US (GPIO_SetActive_SCK s)))))"
  let ?v' = "if dout s (polls s) then push_bit 1 val OR 1 else push_bit 1 val"
  have step: "read_bits i val s = read_bits (i + 1) ?v' ?s'"
    using lt by (rule read_bits_step)
  have "dout (snd (read_bits (i + 1) ?v' ?s')) = dout ?s' \<and>
      polls (snd (read_bits (i + 1) ?v' ?s')) = polls ?s' + (24 - (i + 1))"
    by (rule Suc.hyps(1) [OF k le])
  moreover have "dout ?s' = dout s" "polls ?s' + (24 - (i + 1)) = polls s + (24 - i)"
    using lt by simp_all
  ultimately show ?case
    by (simp only: step)
qed

lemma bit_shift_in:
  "bit (if b then push_bit 1 val OR 1 else push_bit 1 (val :: int32)) n \<longleftrightarrow>
     (if n = 0 then b else n < 32 \<and> bit val (n - 1))"
proof -
  have "bit (push_bit 1 val) n \<longleftrightarrow> n \<noteq> 0 \<and> n < 32 \<and> bit val (n - 1)"
    by (simp only: bit_push_bit_iff possible_bit_word) auto
  moreover have "bit (1 :: int32) n \<longleftrightarrow> n = 0"
    by (simp add: bit_1_iff)
  ultimately show ?thesis
    by (simp only: bit_or_iff split: if_split) auto
qed

lemma read_bits_bit:
  "i \<le> 24 \<Longrightarrow> bit (fst (read_bits i val s)) n \<longleftrightarrow>
     (if n < 24 - i then dout s (polls s + (23 - i - n)) else n < 32 \<and> bit val (n - (24 - i)))"
proof (induction k \<equiv> "24 - i" arbitrary: i val s)
  case 0
  then have "i = 24" by simp
  then show ?case
    using bit_imp_le_length [of val n] by (auto simp: read_bits_done)
next
  case (Suc k)
  then have True: "i < 24" and k: "k = 24 - (i + 1)" and le: "i + 1 \<le> 24"
    by simp_all
  let ?s' = "snd (GPIO_GetPinStatus_DOUT (arch_asm_delay_us HX711_CLOCK_LOW_US
    (GPIO_SetInactive_SCK (arch_asm_delay_us HX711_CLOCK_HIGH_US (GPIO_SetActive_SCK s)))))"
  let ?v' = "if dout s (polls s) then push_bit 1 val OR 1 else push_bit 1 val"
  have IH: "bit (fst (read_bits (i + 1) ?v' ?s')) n \<longleftrightarrow>
      (if n < 24 - (i + 1) then dout ?s' (polls ?s' + (23 - (i + 1) - n))
       else n < 32 \<and> bit ?v' (n - (24 - (i + 1))))"
    by (rule Suc.hyps(1) [OF k le])
  have st: "dout ?s' = dout s" "polls ?s' = Suc (polls s)"
    by simp_all
  have step: "read_bits i val s = read_bits (i + 1) ?v' ?s'"
    using True by (rule read_bits_step)
  show ?case
  proof (cases "n < 23 - i")
    case less: True
    then have a: "n < 24 - (i + 1)" and b: "n < 24 - i"
      and c: "Suc (polls s) + (23 - (i + 1) - n) = polls s + (23 - i - n)"
      by arith+
    show ?thesis
      by (simp only: step IH st a b c if_True)
  next
    case ge: False
    show ?thesis
    proof (cases "n = 23 - i")
      case eq: True
      then have a: "\<not> n < 24 - (i + 1)" and b: "n < 24 - i" and c: "n < 32"
        and d: "polls s + (23 - i - n) = polls s"
        using True by arith+
      have "bit ?v' (n - (24 - (i + 1))) = dout s (polls s)"
        using eq by (simp only: bit_shift_in) simp
      then show ?thesis
        by (simp only: step IH a b c d if_True if_False simp_thms)
    next
      case neq: False
      with ge have gt: "23 - i < n" by simp
      then have a: "\<not> n < 24 - (i + 1)" and b: "\<not> n < 24 - i"
        and c: "n - (24 - (i + 1)) \<noteq> 0" and d: "n - (24 - (i + 1)) - 1 = n - (24 - i)"
        using True by arith+
      have "bit ?v' (n - (24 - (i + 1))) \<longleftrightarrow> n - (24 - (i + 1)) < 32 \<and> bit val (n - (24 - i))"
        by (simp only: bit_shift_in c d if_False)
      then show ?thesis
        using bit_imp_le_length [of val "n - (24 - i)"]
        by (simp only: step IH a b if_False) auto
    qed
  qed
qed

lemma hx711_read_improved_timeout:
  assumes "\<And>k. k \<le> HX711_TIMEOUT_COUNT \<Longrightarrow> dout s (polls s + k)"
  shows "hx711_read_improved s =
    (INT32_MIN, s\<lparr>polls := polls s + HX711_TIMEOUT_COUNT + 1,
                  events := events s @ timeout_read_events\<rparr>)"
proof -
  let ?s2 = "arch_asm_delay_us HX711_SETTLE_TIME_US (GPIO_SetInactive_SCK s)"
  have "wait_ready HX711_TIMEOUT_COUNT ?s2 =
      (True, ?s2\<lparr>polls := polls ?s2 + HX711_TIMEOUT_COUNT + 1,
                 events := events ?s2 @ timeout_wait_events HX711_TIMEOUT_COUNT\<rparr>)"
    by (rule wait_ready_timeout) (simp add: assms)
  moreover have "?s2\<lparr>polls := polls ?s2 + HX711_TIMEOUT_COUNT + 1,
                 events := events ?s2 @ timeout_wait_events HX711_TIMEOUT_COUNT\<rparr>
      = s\<lparr>polls := polls s + HX711_TIMEOUT_COUNT + 1, events := events s @ timeout_read_events\<rparr>"
    by (rule hw_eqI) (simp_all add: timeout_read_events_def)
  ultimately show ?thesis
    by (simp add: hx711_read_improved_def Let_def)
qed

lemma hx711_read_improved_cases:
  "fst (hx711_read_improved s) = INT32_MIN \<or>
   (\<exists>s3. fst (hx711_read_improved s) = sign_extend (fst (read_bits 0 0 s3)))"
  by (auto simp: hx711_read_improved_def Let_def split_beta)

lemma read_bits_0_width: "\<forall>n. bit (fst (read_bits 0 0 s)) n \<longrightarrow> n < 24"
  by (simp add: read_bits_bit split: if_splits)

lemma sint_INT32_MIN: "sint INT32_MIN = - (2 ^ 31)"
  by (simp add: INT32_MIN_def)

lemma sint_INT32_MAX: "sint INT32_MAX = 2 ^ 31 - 1"
  by (simp add: INT32_MAX_def)

lemma sign_extend_not_sentinel:
  assumes "\<forall>n. bit v n \<longrightarrow> n < 24"
  shows "sign_extend v \<noteq> INT32_MIN" and "sign_extend v \<noteq> INT32_MAX"
proof -
  have "sint (sign_extend v) \<noteq> sint INT32_MIN"
    using sint_sign_extend_range [OF assms] by (simp add: sint_INT32_MIN)
  then show "sign_extend v \<noteq> INT32_MIN" by auto
  have "sint (sign_extend v) \<noteq> sint INT32_MAX"
    using sint_sign_extend_range [OF assms] by (simp add: sint_INT32_MAX)
  then show "sign_extend v \<noteq> INT32_MAX" by auto
qed

lemma hx711_read_improved_ready:
  assumes "j \<le> HX711_TIMEOUT_COUNT"
    and "\<And>k. k < j \<Longrightarrow> dout s (polls s + k)"
    and "\<not> dout s (polls s + j)"
  shows "\<exists>v. fst (hx711_read_improved s) = sign_extend v \<and>
           (\<forall>n. bit v n \<longleftrightarrow> n < 24 \<and> dout s (polls s + j + 1 + (23 - n)))"
    and "dout (snd (hx711_read_improved s)) = dout s"
    and "polls (snd (hx711_read_improved s)) = polls s + j + 26"
proof -
  let ?s2 = "arch_asm_delay_us HX711_SETTLE_TIME_US (GPIO_SetInactive_SCK s)"
  let ?s3 = "?s2\<lparr>polls := polls ?s2 + j + 1, events := events ?s2 @ ready_wait_events j\<rparr>"
  have w: "wait_ready HX711_TIMEOUT_COUNT ?s2 = (False, ?s3)"
    using assms by (intro wait_ready_ready) simp_all
  have st: "dout ?s3 = dout s" "polls ?s3 = polls s + j + 1"
    by simp_all
  have r: "fst (hx711_read_improved s) = sign_extend (fst (read_bits 0 0 ?s3))"
    by (simp add: hx711_read_improved_def Let_def split_beta w)
  have "bit (fst (read_bits 0 0 ?s3)) n \<longleftrightarrow> n < 24 \<and> dout s (polls s + j + 1 + (23 - n))" for n
    by (simp only: read_bits_bit st) simp
  with r show "\<exists>v. fst (hx711_read_improved s) = sign_extend v \<and>
           (\<forall>n. bit v n \<longleftrightarrow> n < 24 \<and> dout s (polls s + j + 1 + (23 - n)))"
    by blast
  have e: "snd (hx711_read_improved s) =
      snd (GPIO_GetPinStatus_DOUT (arch_asm_delay_us 10 (arch_asm_delay_us HX711_CLOCK_LOW_US
        (GPIO_SetInactive_SCK (arch_asm_delay_us HX711_CLOCK_HIGH_US
          (GPIO_SetActive_SCK (snd (read_bits 0 0 ?s3))))))))"
    by (simp add: hx711_read_improved_def Let_def split_beta w)
  show "dout (snd (hx711_read_improved s)) = dout s"
    using read_bits_state [of 0 0 ?s3] by (simp only: e) simp
  show "polls (snd (hx711_read_improved s)) = polls s + j + 26"
    using read_bits_state [of 0 0 ?s3] by (simp only: e) simp
qed

lemma stuck_high_simps [simp]:
  "dout stuck_high k" "polls stuck_high = 0" "events stuck_high = []"
  by (simp_all add: stuck_high_def)

lemma SCK_High_notin_timeout_read_events: "SCK_High \<notin> set timeout_read_events"
  by (simp add: timeout_read_events_def timeout_wait_events_def)

lemma stuck_low_simps [simp]:
  "\<not> dout stuck_low k" "polls stuck_low = 0" "events stuck_low = []"
  by (simp_all add: stuck_low_def)

lemma hx711_read_improved_not_INT32_MAX: "fst (hx711_read_improved s) \<noteq> INT32_MAX"
proof -
  from hx711_read_improved_cases [of s] show ?thesis
  proof
    assume "fst (hx711_read_improved s) = INT32_MIN"
    then show ?thesis by (simp add: INT32_MIN_def INT32_MAX_def)
  next
    assume "\<exists>s3. fst (hx711_read_improved s) = sign_extend (fst (read_bits 0 0 s3))"
    then obtain s3 where "fst (hx711_read_improved s) = sign_extend (fst (read_bits 0 0 s3))" ..
    then show ?thesis
      using sign_extend_not_sentinel(2) [OF read_bits_0_width, of s3] by simp
  qed
qed

lemma hx711_read_improved_ready_not_INT32_MIN:
  assumes "j \<le> HX711_TIMEOUT_COUNT"
    and "\<And>k. k < j \<Longrightarrow> dout s (polls s + k)"
    and "\<not> dout s (polls s + j)"
  shows "fst (hx711_read_improved s) \<noteq> INT32_MIN"
proof -
  from hx711_read_improved_ready(1) [OF assms]
  obtain v where v: "fst (hx711_read_improved s) = sign_extend v"
    and bits: "\<forall>n. bit v n \<longleftrightarrow> n < 24 \<and> dout s (polls s + j + 1 + (23 - n))"
    by blast
  from bits have "\<forall>n. bit v n \<longrightarrow> n < 24" by simp
  then show ?thesis
    using sign_extend_not_sentinel(1) [of v] v by simp
qed

lemma hx711_read_improved_check_ignored:
  assumes "j \<le> HX711_TIMEOUT_COUNT"
    and "\<And>k. k < j \<Longrightarrow> dout s (polls s + k)"
    and "\<not> dout s (polls s + j)"
  shows "fst (hx711_read_improved (s\<lparr>dout := (dout s)(polls s + j + 25 := b)\<rparr>)) =
         fst (hx711_read_improved s)"
proof -
  let ?s' = "s\<lparr>dout := (dout s)(polls s + j + 25 := b)\<rparr>"
  from hx711_read_improved_ready(1) [OF assms]
  obtain v where v: "fst (hx711_read_improved s) = sign_extend v"
    and bits: "\<forall>n. bit v n \<longleftrightarrow> n < 24 \<and> dout s (polls s + j + 1 + (23 - n))"
    by blast
  have "\<exists>v'. fst (hx711_read_improved ?s') = sign_extend v' \<and>
      (\<forall>n. bit v' n \<longleftrightarrow> n < 24 \<and> dout ?s' (polls ?s' + j + 1 + (23 - n)))"
    using assms by (intro hx711_read_improved_ready(1)) simp_all
  then obtain v' where v': "fst (hx711_read_improved ?s') = sign_extend v'"
    and bits': "\<forall>n. bit v' n \<longleftrightarrow> n < 24 \<and> dout ?s' (polls ?s' + j + 1 + (23 - n))"
    by blast
  have "v' = v"
  proof (rule bit_eqI)
    fix n
    have "23 - n \<noteq> (24 :: nat)" by arith
    then have "dout ?s' (polls ?s' + j + 1 + (23 - n)) = dout s (polls s + j + 1 + (23 - n))"
      by simp
    then show "bit v' n \<longleftrightarrow> bit v n"
      using bits bits' by (simp only:)
  qed
  with v v' show ?thesis by simp
qed


lemma encode24_nth:
  assumes "- (2 ^ 23) \<le> x" and "x < 2 ^ 23" and "k < 24"
  shows "encode24 x ! k = bit x (23 - k)"
proof -
  have lt: "23 - k < (24 :: nat)" by arith
  have "bit (code24 x) (23 - k) = bit (take_bit 24 (code24 x)) (23 - k)"
    using lt by (simp add: bit_take_bit_iff)
  also have "take_bit 24 (code24 x) = take_bit 24 x"
    by (simp add: code24_def take_bit_eq_mod)
  also have "bit (take_bit 24 x) (23 - k) = bit x (23 - k)"
    using lt by (simp add: bit_take_bit_iff)
  finally show ?thesis
    using assms(3) by (simp add: encode24_def bit_iff_odd)
qed

lemma length_encode24 [simp]: "length (encode24 x) = 24"
  by (simp add: encode24_def)

lemma hx711_read_improved_decodes:
  assumes range: "- (2 ^ 23) \<le> x" "x < 2 ^ 23"
    and ready: "j \<le> HX711_TIMEOUT_COUNT" "\<And>k. k < j \<Longrightarrow> dout s (polls s + k)"
      "\<not> dout s (polls s + j)"
    and frame: "\<And>k. k < 24 \<Longrightarrow> dout s (polls s + j + 1 + k) = encode24 x ! k"
  shows "sint (fst (hx711_read_improved s)) = x"
proof -
  from hx711_read_improved_ready(1) [OF ready]
  obtain v where v: "fst (hx711_read_improved s) = sign_extend v"
    and bits: "\<forall>n. bit v n \<longleftrightarrow> n < 24 \<and> dout s (polls s + j + 1 + (23 - n))"
    by blast
  have bit_v: "bit v n \<longleftrightarrow> n < 24 \<and> bit x n" for n
  proof (cases "n < 24")
    case True
    then have "dout s (polls s + j + 1 + (23 - n)) = encode24 x ! (23 - n)"
      by (intro frame) simp
    also have "\<dots> = bit x (23 - (23 - n))"
      using range by (intro encode24_nth) simp_all
    also have "23 - (23 - n) = n"
      using True by simp
    finally show ?thesis
      using bits True by simp
  next
    case False
    with bits show ?thesis by simp
  qed
  then have width: "\<forall>n. bit v n \<longrightarrow> n < 24"
    by simp
  have "signed_take_bit 23 (uint v) = signed_take_bit 23 x"
  proof (rule bit_eqI)
    fix n
    have "min 23 n < (24 :: nat)" by simp
    then show "bit (signed_take_bit 23 (uint v)) n \<longleftrightarrow> bit (signed_take_bit 23 x) n"
      by (simp add: bit_signed_take_bit_iff bit_uint_iff bit_v)
  qed
  also have "\<dots> = x"
    using range by (simp add: signed_take_bit_int_eq_self_iff)
  finally show ?thesis
    by (simp add: v sint_sign_extend [OF width])
qed


lemma sends_frame_after_simps [simp]:
  "polls (sends_frame_after n x) = 0" "events (sends_frame_after n x) = []"
  "k < n \<Longrightarrow> dout (sends_frame_after n x) k"
  "\<not> dout (sends_frame_after n x) n"
  "k < 24 \<Longrightarrow> dout (sends_frame_after n x) (n + 1 + k) = encode24 x ! k"
  by (simp_all add: sends_frame_after_def)

lemma unat_retry_count_Suc:
  fixes retry_count max_retries :: "8 word"
  assumes "retry_count < max_retries"
  shows "unat (retry_count + 1) = Suc (unat retry_count)"
proof -
  have "unat retry_count < unat max_retries"
    using assms by (simp add: word_less_nat_alt)
  moreover have "unat max_retries < 256"
    using unsigned_less [of max_retries, where 'a = nat] by simp
  ultimately show ?thesis
    by (simp add: unat_word_ariths)
qed

lemma retry_loop_done:
  "\<not> retry_count < max_retries \<Longrightarrow> retry_loop max_retries retry_count result s = (result, s)"
  by (subst retry_loop.simps) simp

lemma retry_loop_success:
  "retry_count < max_retries \<Longrightarrow> fst (hx711_read_improved s) \<noteq> INT32_MIN \<Longrightarrow>
   fst (hx711_read_improved s) \<noteq> INT32_MAX \<Longrightarrow>
   retry_loop max_retries retry_count result s =
     (Some (fst (hx711_read_improved s)), snd (hx711_read_improved s))"
  by (subst retry_loop.simps) (simp add: split_beta)

lemma retry_loop_failure:
  "retry_count < max_retries \<Longrightarrow>
   fst (hx711_read_improved s) = INT32_MIN \<or> fst (hx711_read_improved s) = INT32_MAX \<Longrightarrow>
   retry_loop max_retries retry_count result s =
     retry_loop max_retries (retry_count + 1) (Some (fst (hx711_read_improved s))) (failed_cycle s)"
  by (subst retry_loop.simps) (auto simp: split_beta Let_def failed_cycle_def)

lemma failed_cycle_timeout:
  "fst (hx711_read_improved s) = INT32_MIN \<Longrightarrow> failed_cycle s = timeout_cycle s"
  by (simp add: failed_cycle_def timeout_cycle_def)

lemma retry_loop_failures:
  assumes "unat retry_count + k \<le> unat max_retries"
    and "\<And>i. i < k \<Longrightarrow> fst (hx711_read_improved ((failed_cycle ^^ i) s)) = INT32_MIN \<or>
           fst (hx711_read_improved ((failed_cycle ^^ i) s)) = INT32_MAX"
  shows "retry_loop max_retries retry_count result s =
     retry_loop max_retries (retry_count + of_nat k)
       (if k = 0 then result else Some (fst (hx711_read_improved ((failed_cycle ^^ (k - 1)) s))))
       ((failed_cycle ^^ k) s)"
  using assms
proof (induction k arbitrary: retry_count result s)
  case 0
  then show ?case by simp
next
  case (Suc k)
  have lt: "retry_count < max_retries"
    using Suc.prems(1) by (simp add: word_less_nat_alt)
  have le: "unat (retry_count + 1) + k \<le> unat max_retries"
    using Suc.prems(1) by (simp add: unat_retry_count_Suc [OF lt])
  have fail: "fst (hx711_read_improved s) = INT32_MIN \<or> fst (hx711_read_improved s) = INT32_MAX"
    using Suc.prems(2) [of 0] by simp
  have step: "retry_loop max_retries retry_count result s =
      retry_loop max_retries (retry_count + 1) (Some (fst (hx711_read_improved s))) (failed_cycle s)"
    using lt fail by (rule retry_loop_failure)
  have later: "fst (hx711_read_improved ((failed_cycle ^^ i) (failed_cycle s))) = INT32_MIN \<or>
      fst (hx711_read_improved ((failed_cycle ^^ i) (failed_cycle s))) = INT32_MAX" if "i < k" for i
    using Suc.prems(2) [of "Suc i"] that by (simp add: funpow_swap1)
  have "retry_loop max_retries (retry_count + 1) (Some (fst (hx711_read_improved s))) (failed_cycle s) =
      retry_loop max_retries (retry_count + 1 + of_nat k)
        (if k = 0 then Some (fst (hx711_read_improved s))
         else Some (fst (hx711_read_improved ((failed_cycle ^^ (k - 1)) (failed_cycle s)))))
        ((failed_cycle ^^ k) (failed_cycle s))"
    using le later by (rule Suc.IH)
  also have "(failed_cycle ^^ k) (failed_cycle s) = (failed_cycle ^^ Suc k) s"
    by (simp add: funpow_swap1)
  also have "(if k = 0 then Some (fst (hx711_read_improved s))
         else Some (fst (hx711_read_improved ((failed_cycle ^^ (k - 1)) (failed_cycle s))))) =
      Some (fst (hx711_read_improved ((failed_cycle ^^ (Suc k - 1)) s)))"
    by (cases k) (simp_all add: funpow_swap1)
  also have "retry_count + 1 + of_nat k = retry_count + of_nat (Suc k)"
    by simp
  finally show ?case
    using step by simp
qed

lemma retry_loop_assigned:
  "fst (retry_loop max_retries retry_count (Some r) s) \<noteq> None"
proof (induction k \<equiv> "unat max_retries - unat retry_count" arbitrary: retry_count r s)
  case 0
  then have "\<not> retry_count < max_retries"
    by (simp add: word_less_nat_alt)
  then show ?case by (simp add: retry_loop_done)
next
  case (Suc k)
  then have lt: "retry_count < max_retries"
    by (simp add: word_less_nat_alt)
  have k: "k = unat max_retries - unat (retry_count + 1)"
    using Suc.hyps(2) by (simp add: unat_retry_count_Suc [OF lt])
  show ?case
  proof (cases "fst (hx711_read_improved s) = INT32_MIN \<or> fst (hx711_read_improved s) = INT32_MAX")
    case True
    show ?thesis
      unfolding retry_loop_failure [OF lt True] by (rule Suc.hyps(1) [OF k])
  next
    case False
    then show ?thesis
      using lt by (simp add: retry_loop_success)
  qed
qed

lemma hx711_read_with_retry_assigned:
  assumes "1 \<le> max_retries"
  shows "fst (hx711_read_with_retry max_retries s) \<noteq> None"
proof -
  have lt: "0 < max_retries"
    using assms by (simp add: word_less_nat_alt word_le_nat_alt)
  show ?thesis
  proof (cases "fst (hx711_read_improved s) = INT32_MIN \<or> fst (hx711_read_improved s) = INT32_MAX")
    case True
    show ?thesis
      unfolding hx711_read_with_retry_def retry_loop_failure [OF lt True]
      by (rule retry_loop_assigned)
  next
    case False
    then show ?thesis
      using lt by (simp add: hx711_read_with_retry_def retry_loop_success)
  qed
qed

lemma hx711_read_with_retry_first_success:
  assumes "k < unat max_retries"
    and "\<And>i. i < k \<Longrightarrow> fst (hx711_read_improved ((failed_cycle ^^ i) s)) = INT32_MIN \<or>
           fst (hx711_read_improved ((failed_cycle ^^ i) s)) = INT32_MAX"
    and "fst (hx711_read_improved ((failed_cycle ^^ k) s)) \<noteq> INT32_MIN"
    and "fst (hx711_read_improved ((failed_cycle ^^ k) s)) \<noteq> INT32_MAX"
  shows "hx711_read_with_retry max_retries s =
     (Some (fst (hx711_read_improved ((failed_cycle ^^ k) s))),
      snd (hx711_read_improved ((failed_cycle ^^ k) s)))"
proof -
  have "unat (of_nat k :: 8 word) = k"
    using assms(1) by (intro le_unat_uoi [of k max_retries]) simp
  with assms(1) have lt: "(0 :: 8 word) + of_nat k < max_retries"
    by (simp add: word_less_nat_alt)
  have "hx711_read_with_retry max_retries s =
      retry_loop max_retries (0 + of_nat k)
        (if k = 0 then None else Some (fst (hx711_read_improved ((failed_cycle ^^ (k - 1)) s))))
        ((failed_cycle ^^ k) s)"
    unfolding hx711_read_with_retry_def
    using assms(1,2) by (intro retry_loop_failures) simp_all
  also have "\<dots> = (Some (fst (hx711_read_improved ((failed_cycle ^^ k) s))),
      snd (hx711_read_improved ((failed_cycle ^^ k) s)))"
    using lt assms(3,4) by (rule retry_loop_success)
  finally show ?thesis .
qed

lemma failed_cycle_funpow_timeouts:
  assumes "\<And>i. i < k \<Longrightarrow> fst (hx711_read_improved ((timeout_cycle ^^ i) s)) = INT32_MIN"
  shows "(failed_cycle ^^ k) s = (timeout_cycle ^^ k) s"
  using assms
proof (induction k)
  case 0
  show ?case by simp
next
  case (Suc k)
  then have "(failed_cycle ^^ k) s = (timeout_cycle ^^ k) s"
    by simp
  moreover have "fst (hx711_read_improved ((timeout_cycle ^^ k) s)) = INT32_MIN"
    using Suc.prems by simp
  ultimately show ?case
    by (simp add: failed_cycle_timeout)
qed

lemma hx711_read_with_retry_all_timeouts:
  assumes "1 \<le> max_retries"
    and "\<And>i. i < unat max_retries \<Longrightarrow>
           fst (hx711_read_improved ((timeout_cycle ^^ i) s)) = INT32_MIN"
  shows "hx711_read_with_retry max_retries s =
     (Some INT32_MIN, (timeout_cycle ^^ unat max_retries) s)"
proof -
  let ?n = "unat max_retries"
  have pos: "0 < ?n"
    using assms(1) by (simp add: word_le_nat_alt)
  have eq: "(failed_cycle ^^ i) s = (timeout_cycle ^^ i) s" if "i \<le> ?n" for i
    using that assms(2) by (intro failed_cycle_funpow_timeouts) simp
  have fails: "fst (hx711_read_improved ((failed_cycle ^^ i) s)) = INT32_MIN \<or>
      fst (hx711_read_improved ((failed_cycle ^^ i) s)) = INT32_MAX" if "i < ?n" for i
    using that assms(2) [of i] eq [of i] by simp
  have "hx711_read_with_retry max_retries s =
      retry_loop max_retries (0 + of_nat ?n)
        (if ?n = 0 then None else Some (fst (hx711_read_improved ((failed_cycle ^^ (?n - 1)) s))))
        ((failed_cycle ^^ ?n) s)"
    unfolding hx711_read_with_retry_def
    using fails by (intro retry_loop_failures) simp_all
  also have "(0 :: 8 word) + of_nat ?n = max_retries"
    by simp
  also have "(if ?n = 0 then None else Some (fst (hx711_read_improved ((failed_cycle ^^ (?n - 1)) s))))
      = Some INT32_MIN"
    using pos assms(2) [of "?n - 1"] eq [of "?n - 1"] by simp
  also have "(failed_cycle ^^ ?n) s = (timeout_cycle ^^ ?n) s"
    by (rule eq) simp
  finally show ?thesis
    by (simp add: retry_loop_done)
qed

lemma hx711_power_down_eq:
  "hx711_power_down s = s\<lparr>events := events s @ [SCK_High, Delay_us 60]\<rparr>"
  by (simp add: hx711_power_down_def arch_asm_delay_us_def GPIO_SetActive_SCK_def)

lemma hx711_power_up_eq:
  "hx711_power_up s =
     s\<lparr>polls := Suc (polls s),
       events := events s @ [SCK_Low, Delay_us 100000, DOUT_Sample (dout s (polls s))]\<rparr>"
  by (simp add: hx711_power_up_def arch_asm_delay_us_def GPIO_SetInactive_SCK_def
      GPIO_GetPinStatus_DOUT_def HX711_POWER_UP_TIME_MS_def)

lemma timeout_cycle_high:
  assumes "\<And>k. k < HX711_TIMEOUT_COUNT + 2 \<Longrightarrow> dout s (polls s + k)"
  shows "timeout_cycle s =
     s\<lparr>polls := polls s + (HX711_TIMEOUT_COUNT + 2), events := events s @ timeout_cycle_events\<rparr>"
    and "fst (hx711_read_improved s) = INT32_MIN"
proof -
  have r: "hx711_read_improved s =
      (INT32_MIN, s\<lparr>polls := polls s + HX711_TIMEOUT_COUNT + 1,
                    events := events s @ timeout_read_events\<rparr>)"
    by (rule hx711_read_improved_timeout) (simp add: assms)
  then show "fst (hx711_read_improved s) = INT32_MIN" by simp
  have "dout s (polls s + (HX711_TIMEOUT_COUNT + 1))"
    by (rule assms) simp
  then show "timeout_cycle s =
     s\<lparr>polls := polls s + (HX711_TIMEOUT_COUNT + 2), events := events s @ timeout_cycle_events\<rparr>"
    by (simp add: timeout_cycle_def r hx711_power_down_eq hx711_power_up_eq arch_asm_delay_us_def
        timeout_cycle_events_def recovery_events_def)
qed

lemma concat_replicate_Suc_right:
  "concat (replicate (Suc n) xs) = concat (replicate n xs) @ xs"
  by (induction n) simp_all

lemma timeout_cycles_high:
  assumes "\<And>k. k < n * (HX711_TIMEOUT_COUNT + 2) \<Longrightarrow> dout s (polls s + k)"
  shows "(timeout_cycle ^^ n) s =
     s\<lparr>polls := polls s + n * (HX711_TIMEOUT_COUNT + 2),
       events := events s @ concat (replicate n timeout_cycle_events)\<rparr>"
  using assms
proof (induction n)
  case 0
  show ?case by simp
next
  case (Suc n)
  let ?c = "HX711_TIMEOUT_COUNT + 2"
  let ?sn = "s\<lparr>polls := polls s + n * ?c, events := events s @ concat (replicate n timeout_cycle_events)\<rparr>"
  have sn: "(timeout_cycle ^^ n) s = ?sn"
    using Suc.prems by (intro Suc.IH) simp
  have "timeout_cycle ?sn = ?sn\<lparr>polls := polls ?sn + ?c, events := events ?sn @ timeout_cycle_events\<rparr>"
  proof (rule timeout_cycle_high(1))
    fix k assume "k < ?c"
    then have "n * ?c + k < Suc n * ?c" by simp
    then have "dout s (polls s + (n * ?c + k))" by (rule Suc.prems)
    then show "dout ?sn (polls ?sn + k)" by (simp add: add.assoc)
  qed
  also have "\<dots> = s\<lparr>polls := polls s + Suc n * ?c,
      events := events s @ concat (replicate (Suc n) timeout_cycle_events)\<rparr>"
    by (simp only: concat_replicate_Suc_right) simp
  finally show ?case
    by (simp only: funpow.simps o_apply sn)
qed

lemma timeout_cycles_high_read:
  assumes "\<And>k. k < n * (HX711_TIMEOUT_COUNT + 2) \<Longrightarrow> dout s (polls s + k)" and "i < n"
  shows "fst (hx711_read_improved ((timeout_cycle ^^ i) s)) = INT32_MIN"
proof -
  let ?c = "HX711_TIMEOUT_COUNT + 2"
  let ?si = "s\<lparr>polls := polls s + i * ?c, events := events s @ concat (replicate i timeout_cycle_events)\<rparr>"
  have le: "Suc i * ?c \<le> n * ?c"
    using assms(2) by (intro mult_le_mono1) simp
  have "(timeout_cycle ^^ i) s = ?si"
  proof (rule timeout_cycles_high)
    fix k assume "k < i * ?c"
    with le have "k < n * ?c" by simp
    then show "dout s (polls s + k)" by (rule assms(1))
  qed
  moreover have "fst (hx711_read_improved ?si) = INT32_MIN"
  proof (rule timeout_cycle_high(2))
    fix k assume "k < ?c"
    then have "i * ?c + k < Suc i * ?c" by simp
    with le have "i * ?c + k < n * ?c" by simp
    then have "dout s (polls s + (i * ?c + k))" by (rule assms(1))
    then show "dout ?si (polls ?si + k)" by (simp add: add.assoc)
  qed
  ultimately show ?thesis by simp
qed

lemma two_timeouts_then_frame:
  fixes x :: int
  defines "S \<equiv> sends_frame_after (2 * (HX711_TIMEOUT_COUNT + 2)) x"
  assumes "- (2 ^ 23) \<le> x" and "x < 2 ^ 23"
  shows "i < 2 \<Longrightarrow> fst (hx711_read_improved ((failed_cycle ^^ i) S)) = INT32_MIN"
    and "sint (fst (hx711_read_improved ((failed_cycle ^^ 2) S))) = x"
proof -
  let ?n = "2 * (HX711_TIMEOUT_COUNT + 2)"
  have high: "dout S (polls S + k)" if "k < ?n" for k
    using that by (simp add: S_def)
  have t: "fst (hx711_read_improved ((timeout_cycle ^^ i) S)) = INT32_MIN" if "i < 2" for i
    using high that by (rule timeout_cycles_high_read)
  have fc: "(failed_cycle ^^ i) S = (timeout_cycle ^^ i) S" if "i \<le> 2" for i
    using that by (intro failed_cycle_funpow_timeouts t) simp
  show "i < 2 \<Longrightarrow> fst (hx711_read_improved ((failed_cycle ^^ i) S)) = INT32_MIN"
    using t [of i] fc [of i] by simp
  let ?s2 = "S\<lparr>polls := polls S + ?n, events := events S @ concat (replicate 2 timeout_cycle_events)\<rparr>"
  have s2: "(failed_cycle ^^ 2) S = ?s2"
    using fc [of 2] timeout_cycles_high [of 2 S, OF high] by simp
  have st: "dout ?s2 = dout S" "polls ?s2 = ?n"
    by (simp_all add: S_def)
  have rdy: "\<not> dout S ?n"
    unfolding S_def by (rule sends_frame_after_simps(4))
  have frm: "dout S (?n + 1 + k) = encode24 x ! k" if "k < 24" for k
    unfolding S_def using that by (rule sends_frame_after_simps(5))
  have "sint (fst (hx711_read_improved ?s2)) = x"
  proof (rule hx711_read_improved_decodes [where j = 0])
    show "- (2 ^ 23) \<le> x" "x < 2 ^ 23" by (fact assms)+
    show "0 \<le> HX711_TIMEOUT_COUNT" by simp
    show "dout ?s2 (polls ?s2 + k)" if "k < 0" for k
      using that by simp
    show "\<not> dout ?s2 (polls ?s2 + 0)"
      unfolding st add_0_right by (rule rdy)
    show "dout ?s2 (polls ?s2 + 0 + 1 + k) = encode24 x ! k" if "k < 24" for k
      unfolding st add_0_right by (rule frm [OF that])
  qed
  then show "sint (fst (hx711_read_improved ((failed_cycle ^^ 2) S))) = x"
    by (simp only: s2)
qed

lemma callback_failure:
  assumes "hx711_read_with_retry 3 (gpio a) = (Some hx, g)"
    and "hx = INT32_MIN \<or> hx = INT32_MAX"
  shows "app_adcval1_timer_cb_handler_improved a =
    Some (a\<lparr>gpio := (if max_consecutive_errors \<le> consecutive_errors a + 1 then hx711_init g else g),
            adc_timer := (if app_state a = APP_CONNECTED then next_timer a (timers_created a)
                          else adc_timer a),
            consecutive_errors :=
              (if max_consecutive_errors \<le> consecutive_errors a + 1 then 0
               else consecutive_errors a + 1),
            timers_created := (if app_state a = APP_CONNECTED then Suc (timers_created a)
                               else timers_created a),
            ble_events := ble_events a @ [Msg_Alloc, Msg_Free]\<rparr>)"
  using assms
  by (simp add: app_adcval1_timer_cb_handler_improved_def app_easy_timer_def Let_def)

lemma callback_success:
  assumes "hx711_read_with_retry 3 (gpio a) = (Some hx, g)"
    and "hx \<noteq> INT32_MIN" and "hx \<noteq> INT32_MAX"
  shows "app_adcval1_timer_cb_handler_improved a =
    Some (a\<lparr>gpio := g,
            adc_timer := (if app_state a = APP_CONNECTED then next_timer a (timers_created a)
                          else EASY_TIMER_INVALID_TIMER),
            consecutive_errors := 0,
            adc_val_1 := hx,
            timers_created := (if app_state a = APP_CONNECTED then Suc (timers_created a)
                               else timers_created a),
            ble_events := ble_events a @ [Msg_Alloc, Att_Set_Value (bswap32 hx), Msg_Send (bswap32 hx)]\<rparr>)"
  using assms
  by (simp add: app_adcval1_timer_cb_handler_improved_def app_easy_timer_def Let_def)

lemma hx711_read_with_retry_3_assigned:
  "\<exists>hx. hx711_read_with_retry 3 s = (Some hx, snd (hx711_read_with_retry 3 s))"
proof -
  have "fst (hx711_read_with_retry 3 s) \<noteq> None"
    by (rule hx711_read_with_retry_assigned) simp
  then obtain hx where "fst (hx711_read_with_retry 3 s) = Some hx"
    by auto
  then have "hx711_read_with_retry 3 s = (Some hx, snd (hx711_read_with_retry 3 s))"
    by (simp add: prod_eq_iff)
  then show ?thesis ..
qed

lemma polls_hx711_init_wait: "polls s < polls (snd (hx711_init_wait timeout s))"
proof (induction timeout arbitrary: s)
  case 0
  show ?case
    by (subst hx711_init_wait.simps) (simp add: hx711_is_ready_def split_beta)
next
  case (Suc timeout)
  have "polls (arch_asm_delay_us 10 (snd (hx711_is_ready s))) = Suc (polls s)"
    by (simp add: hx711_is_ready_def split_beta)
  with Suc [of "arch_asm_delay_us 10 (snd (hx711_is_ready s))"] show ?case
    by (subst hx711_init_wait.simps) (simp add: hx711_is_ready_def split_beta)
qed

lemma polls_hx711_init: "polls s < polls (hx711_init s)"
  using polls_hx711_init_wait [of "hx711_power_up (GPIO_SetInactive_SCK s)" HX711_TIMEOUT_COUNT]
  by (simp add: hx711_init_def Let_def split_beta hx711_power_up_eq)

lemma hx711_read_with_retry_stuck_high:
  assumes "1 \<le> max_retries" and "\<And>k. dout s (polls s + k)"
  shows "hx711_read_with_retry max_retries s =
     (Some INT32_MIN, (timeout_cycle ^^ unat max_retries) s)"
  using assms(1)
proof (rule hx711_read_with_retry_all_timeouts)
  fix i assume "i < unat max_retries"
  then show "fst (hx711_read_improved ((timeout_cycle ^^ i) s)) = INT32_MIN"
    by (intro timeout_cycles_high_read [of "unat max_retries"] assms(2))
qed

lemma dout_sends_frame_after_late:
  "n + 25 \<le> k \<Longrightarrow> dout (sends_frame_after n x) k"
  by (simp add: sends_frame_after_def)

lemma first_cycle_reads_frame:
  fixes x :: int
  defines "S \<equiv> sends_frame_after 0 x"
  assumes "- (2 ^ 23) \<le> x" and "x < 2 ^ 23"
  shows "hx711_read_with_retry 3 S = (Some (fst (hx711_read_improved S)), snd (hx711_read_improved S))"
    and "fst (hx711_read_improved S) \<noteq> INT32_MIN"
    and "fst (hx711_read_improved S) \<noteq> INT32_MAX"
    and "dout (snd (hx711_read_improved S)) (polls (snd (hx711_read_improved S)) + k)"
proof -
  have budget: "0 \<le> HX711_TIMEOUT_COUNT" by simp
  have high: "dout S (polls S + k)" if "k < 0" for k
    using that by simp
  have ready: "\<not> dout S (polls S + 0)"
    by (simp add: S_def)
  show nmin: "fst (hx711_read_improved S) \<noteq> INT32_MIN"
    using budget high ready by (rule hx711_read_improved_ready_not_INT32_MIN)
  show nmax: "fst (hx711_read_improved S) \<noteq> INT32_MAX"
    by (rule hx711_read_improved_not_INT32_MAX)
  have "hx711_read_with_retry 3 S =
     (Some (fst (hx711_read_improved ((failed_cycle ^^ 0) S))),
      snd (hx711_read_improved ((failed_cycle ^^ 0) S)))"
    using nmin nmax by (intro hx711_read_with_retry_first_success) simp_all
  then show "hx711_read_with_retry 3 S =
      (Some (fst (hx711_read_improved S)), snd (hx711_read_improved S))"
    by simp
  have "dout (snd (hx711_read_improved S)) = dout S"
    using budget high ready by (rule hx711_read_improved_ready(2))
  moreover have "polls (snd (hx711_read_improved S)) = polls S + 0 + 26"
    using budget high ready by (rule hx711_read_improved_ready(3))
  ultimately show "dout (snd (hx711_read_improved S)) (polls (snd (hx711_read_improved S)) + k)"
    by (simp add: S_def dout_sends_frame_after_late)
qed

lemma callback_not_connected:
  assumes "app_state a \<noteq> APP_CONNECTED"
  shows "map_option timers_created (app_adcval1_timer_cb_handler_improved a) =
           Some (timers_created a)"
    and "map_option adc_timer (app_adcval1_timer_cb_handler_improved a) =
           Some (if fst (hx711_read_with_retry 3 (gpio a)) = Some INT32_MIN \<or>
                    fst (hx711_read_with_retry 3 (gpio a)) = Some INT32_MAX
                 then adc_timer a else EASY_TIMER_INVALID_TIMER)"
proof -
  let ?g = "snd (hx711_read_with_retry 3 (gpio a))"
  obtain hx where r: "hx711_read_with_retry 3 (gpio a) = (Some hx, ?g)"
    using hx711_read_with_retry_3_assigned [of "gpio a"] ..
  then have fst_r: "fst (hx711_read_with_retry 3 (gpio a)) = Some hx"
    by (simp add: prod_eq_iff)
  have both: "map_option timers_created (app_adcval1_timer_cb_handler_improved a) =
           Some (timers_created a) \<and>
      map_option adc_timer (app_adcval1_timer_cb_handler_improved a) =
           Some (if fst (hx711_read_with_retry 3 (gpio a)) = Some INT32_MIN \<or>
                    fst (hx711_read_with_retry 3 (gpio a)) = Some INT32_MAX
                 then adc_timer a else EASY_TIMER_INVALID_TIMER)"
  proof (cases "hx = INT32_MIN \<or> hx = INT32_MAX")
    case True
    show ?thesis
      using True assms by (simp only: callback_failure [OF r True] fst_r) auto
  next
    case False
    then have ok: "hx \<noteq> INT32_MIN" "hx \<noteq> INT32_MAX" by simp_all
    show ?thesis
      using ok assms by (simp only: callback_success [OF r ok] fst_r) auto
  qed
  from both show "map_option timers_created (app_adcval1_timer_cb_handler_improved a) =
           Some (timers_created a)" ..
  from both show "map_option adc_timer (app_adcval1_timer_cb_handler_improved a) =
           Some (if fst (hx711_read_with_retry 3 (gpio a)) = Some INT32_MIN \<or>
                    fst (hx711_read_with_retry 3 (gpio a)) = Some INT32_MAX
                 then adc_timer a else EASY_TIMER_INVALID_TIMER)" ..
qed

section \<open>The raw read: timeout and result range\<close>

text \<open>
  C9: every value that \<open>hx711_read_improved\<close> returns is \<open>INT32_MIN\<close>, \<open>INT32_MAX\<close>, or
  a sign-extended sample between \<open>-2^23\<close> and \<open>2^23 - 1\<close>; both sentinels lie strictly
  outside that range, so comparing for equality with them identifies the errors.
\<close>

theorem read_result_range:
  "(fst (hx711_read_improved s) = INT32_MIN \<or> fst (hx711_read_improved s) = INT32_MAX \<or>
      (- (2 ^ 23) \<le> sint (fst (hx711_read_improved s)) \<and>
       sint (fst (hx711_read_improved s)) < 2 ^ 23)) \<and>
   sint INT32_MIN < - (2 ^ 23) \<and> 2 ^ 23 - 1 < sint INT32_MAX"
proof -
  from hx711_read_improved_cases [of s]
  have "fst (hx711_read_improved s) = INT32_MIN \<or>
      (- (2 ^ 23) \<le> sint (fst (hx711_read_improved s)) \<and>
       sint (fst (hx711_read_improved s)) < 2 ^ 23)"
  proof
    assume "fst (hx711_read_improved s) = INT32_MIN"
    then show ?thesis by simp
  next
    assume "\<exists>s3. fst (hx711_read_improved s) = sign_extend (fst (read_bits 0 0 s3))"
    then obtain s3 where "fst (hx711_read_improved s) = sign_extend (fst (read_bits 0 0 s3))" ..
    then show ?thesis
      using sint_sign_extend_range [OF read_bits_0_width, of s3] by simp
  qed
  then show ?thesis
    by (auto simp: sint_INT32_MIN sint_INT32_MAX)
qed

text \<open>
  C4: when DOUT reads high at every poll, \<open>hx711_read_improved\<close> returns exactly
  \<open>INT32_MIN\<close>, and all it did to the lines is the settle step and the polling: SCK is
  never driven high, so no bit of the frame is clocked.
\<close>

theorem timeout_without_clocking:
  assumes "\<forall>k. dout s (polls s + k)"
  shows "fst (hx711_read_improved s) = INT32_MIN \<and>
         events (snd (hx711_read_improved s)) = events s @ timeout_read_events \<and>
         SCK_High \<notin> set timeout_read_events"
  using assms
  by (simp add: hx711_read_improved_timeout SCK_High_notin_timeout_read_events)

theorem timeout_without_clocking_witness:
  "(\<forall>k. dout stuck_high (polls stuck_high + k)) \<and>
   fst (hx711_read_improved stuck_high) = INT32_MIN \<and>
   events (snd (hx711_read_improved stuck_high)) = timeout_read_events \<and>
   SCK_High \<notin> set timeout_read_events"
  using timeout_without_clocking [of stuck_high] by simp

text \<open>
  C5, as amended: when DOUT never goes low, the ready-wait loop samples the line 50,001
  times, with 50,000 delays of 1 us between the samples, before the read aborts with
  \<open>INT32_MIN\<close>. (The counter is tested before it is decremented, so the sample that finds
  it at 0 is the 50,001st.)
\<close>

theorem timeout_poll_count:
  assumes "\<forall>k. dout s (polls s + k)"
  shows "fst (hx711_read_improved s) = INT32_MIN \<and>
         polls (snd (hx711_read_improved s)) = polls s + 50001 \<and>
         events (snd (hx711_read_improved s)) =
           events s @ [SCK_Low, Delay_us 100] @
             concat (replicate 50000 [DOUT_Sample True, Delay_us 1]) @ [DOUT_Sample True]"
  using assms
  by (simp add: hx711_read_improved_timeout timeout_read_events_def timeout_wait_events_def
      HX711_TIMEOUT_COUNT_def HX711_SETTLE_TIME_US_def)

theorem timeout_poll_count_witness:
  "(\<forall>k. dout stuck_high (polls stuck_high + k)) \<and>
   fst (hx711_read_improved stuck_high) = INT32_MIN \<and>
   polls (snd (hx711_read_improved stuck_high)) = 50001 \<and>
   events (snd (hx711_read_improved stuck_high)) =
     [SCK_Low, Delay_us 100] @
       concat (replicate 50000 [DOUT_Sample True, Delay_us 1]) @ [DOUT_Sample True]"
  using timeout_poll_count [of stuck_high] by simp

text \<open>
  C5 as stated (exactly 50,000 samples) fails on the line that is stuck high: the number
  of samples taken by the read is not 50,000.
\<close>

theorem timeout_poll_count_counterexample:
  "polls (snd (hx711_read_improved stuck_high)) - polls stuck_high \<noteq> 50000"
  by (simp add: hx711_read_improved_timeout HX711_TIMEOUT_COUNT_def)

text \<open>
  C7: \<open>hx711_read_improved\<close> never returns \<open>INT32_MAX\<close>. The sample taken after the
  gain-select pulse is at poll \<open>polls s + j + 25\<close> when the line became ready at the
  \<open>j\<close>-th poll of the wait; whatever level that sample shows, the value returned is the
  same, so a data line that fails to rise is seen but not reported.
\<close>

theorem comm_error_never_returned:
  "fst (hx711_read_improved s) \<noteq> INT32_MAX \<and>
   (j \<le> HX711_TIMEOUT_COUNT \<and> (\<forall>k<j. dout s (polls s + k)) \<and> \<not> dout s (polls s + j) \<longrightarrow>
      fst (hx711_read_improved (s\<lparr>dout := (dout s)(polls s + j + 25 := b)\<rparr>)) =
      fst (hx711_read_improved s))"
  using hx711_read_improved_not_INT32_MAX [of s] hx711_read_improved_check_ignored [of j s b]
  by blast

theorem comm_error_never_returned_witness:
  "fst (hx711_read_improved stuck_low) \<noteq> INT32_MAX \<and>
   0 \<le> HX711_TIMEOUT_COUNT \<and> \<not> dout stuck_low (polls stuck_low + 0) \<and>
   fst (hx711_read_improved (stuck_low\<lparr>dout := (dout stuck_low)(polls stuck_low + 0 + 25 := True)\<rparr>)) =
   fst (hx711_read_improved stuck_low)"
  using comm_error_never_returned [of stuck_low 0 True] by simp

section \<open>Sign extension\<close>

text \<open>
  C2: for every \<open>x\<close> between \<open>-2^23\<close> and \<open>2^23 - 1\<close>, when the line becomes ready and
  then presents the 24 bits of the two's-complement code of \<open>x\<close>, most significant bit
  first, \<open>hx711_read_improved\<close> (which shifts them into the accumulator and then
  sign-extends) returns a 32-bit value whose signed reading is \<open>x\<close>.
\<close>

theorem sign_extension_round_trip:
  assumes "- (2 ^ 23) \<le> x" and "x < 2 ^ 23"
    and "j \<le> HX711_TIMEOUT_COUNT" and "\<forall>k<j. dout s (polls s + k)"
    and "\<not> dout s (polls s + j)"
    and "\<forall>k<24. dout s (polls s + j + 1 + k) = encode24 x ! k"
  shows "sint (fst (hx711_read_improved s)) = x"
proof (rule hx711_read_improved_decodes)
  show "- (2 ^ 23) \<le> x" "x < 2 ^ 23" "j \<le> HX711_TIMEOUT_COUNT" "\<not> dout s (polls s + j)"
    by (fact assms)+
  show "dout s (polls s + k)" if "k < j" for k
    using assms(4) that by blast
  show "dout s (polls s + j + 1 + k) = encode24 x ! k" if "k < 24" for k
    using assms(6) that by blast
qed


theorem sign_extension_round_trip_witness:
  "- (2 ^ 23) \<le> (- 5 :: int) \<and> (- 5 :: int) < 2 ^ 23 \<and> 7 \<le> HX711_TIMEOUT_COUNT \<and>
   map (\<lambda>k. dout (sends_frame_after 7 (- 5)) (polls (sends_frame_after 7 (- 5)) + k)) [0..<7] =
     replicate 7 True \<and>
   \<not> dout (sends_frame_after 7 (- 5)) (polls (sends_frame_after 7 (- 5)) + 7) \<and>
   map (\<lambda>k. dout (sends_frame_after 7 (- 5)) (polls (sends_frame_after 7 (- 5)) + 7 + 1 + k)) [0..<24] =
     encode24 (- 5) \<and>
   sint (fst (hx711_read_improved (sends_frame_after 7 (- 5)))) = - 5"
proof -
  let ?S = "sends_frame_after 7 (- 5)"
  have range: "- (2 ^ 23) \<le> (- 5 :: int)" "(- 5 :: int) < 2 ^ 23"
    by simp_all
  have budget: "7 \<le> HX711_TIMEOUT_COUNT"
    by (simp add: HX711_TIMEOUT_COUNT_def)
  have high: "\<forall>k<7. dout ?S (polls ?S + k)"
    by simp
  have ready: "\<not> dout ?S (polls ?S + 7)"
    by simp
  have frame: "\<forall>k<24. dout ?S (polls ?S + 7 + 1 + k) = encode24 (- 5) ! k"
    using sends_frame_after_simps(5) [of _ 7 "- 5"] by simp
  have "map (\<lambda>k. dout ?S (polls ?S + k)) [0..<7] = replicate 7 True"
    using high by (intro nth_equalityI) simp_all
  moreover have "map (\<lambda>k. dout ?S (polls ?S + 7 + 1 + k)) [0..<24] = encode24 (- 5)"
    using frame by (intro nth_equalityI) simp_all
  moreover note sign_extension_round_trip [OF range budget high ready frame] range budget ready
  ultimately show ?thesis
    by (intro conjI)
qed

section \<open>The retrying read\<close>

text \<open>
  C3, as amended: for every \<open>max_retries \<ge> 1\<close>, if every raw read the loop makes
  returns \<open>INT32_MIN\<close>, then \<open>hx711_read_with_retry\<close> makes exactly \<open>max_retries\<close>
  attempts, each attempt followed by one power-down/power-up recovery pair and the
  10 ms delay (the lines end in the state reached by \<open>max_retries\<close> passes of
  \<open>timeout_cycle\<close>), and it returns \<open>INT32_MIN\<close>.
\<close>

theorem retry_all_timeouts:
  assumes "1 \<le> max_retries"
    and "\<forall>i<unat max_retries. fst (hx711_read_improved ((timeout_cycle ^^ i) s)) = INT32_MIN"
  shows "hx711_read_with_retry max_retries s =
     (Some INT32_MIN, (timeout_cycle ^^ unat max_retries) s)"
  using assms by (intro hx711_read_with_retry_all_timeouts) simp_all

theorem retry_all_timeouts_witness:
  "(1 :: 8 word) \<le> 2 \<and>
   fst (hx711_read_improved ((timeout_cycle ^^ 0) stuck_high)) = INT32_MIN \<and>
   fst (hx711_read_improved ((timeout_cycle ^^ 1) stuck_high)) = INT32_MIN \<and>
   hx711_read_with_retry 2 stuck_high =
     (Some INT32_MIN, (timeout_cycle ^^ unat (2 :: 8 word)) stuck_high)"
proof -
  have t: "fst (hx711_read_improved ((timeout_cycle ^^ i) stuck_high)) = INT32_MIN" if "i < 2" for i
    using that by (intro timeout_cycles_high_read [of 2]) simp_all
  then have "\<forall>i<unat (2 :: 8 word). fst (hx711_read_improved ((timeout_cycle ^^ i) stuck_high)) = INT32_MIN"
    by simp
  moreover have "(1 :: 8 word) \<le> 2" by simp
  ultimately have "hx711_read_with_retry 2 stuck_high =
     (Some INT32_MIN, (timeout_cycle ^^ unat (2 :: 8 word)) stuck_high)"
    by (intro retry_all_timeouts)
  with t [of 0] t [of 1] \<open>(1 :: 8 word) \<le> 2\<close> show ?thesis
    by (intro conjI) simp_all
qed

text \<open>
  C3 as stated (each attempt preceded by a recovery pair) fails for one attempt on the
  line that is stuck high: the run is the timed-out read followed by the recovery pair
  and the delay, and it does not begin with a recovery pair.
\<close>

theorem retry_all_timeouts_counterexample:
  "events (snd (hx711_read_with_retry 1 stuck_high)) =
     timeout_read_events @ recovery_events True @ [Delay_us 10000] \<and>
   \<not> prefix (recovery_events True) (events (snd (hx711_read_with_retry 1 stuck_high))) \<and>
   \<not> prefix (recovery_events False) (events (snd (hx711_read_with_retry 1 stuck_high)))"
proof -
  have "hx711_read_with_retry 1 stuck_high = (Some INT32_MIN, (timeout_cycle ^^ unat (1 :: 8 word)) stuck_high)"
    by (intro hx711_read_with_retry_all_timeouts timeout_cycles_high_read [of 1]) simp_all
  moreover have "(timeout_cycle ^^ 1) stuck_high =
      stuck_high\<lparr>polls := polls stuck_high + 1 * (HX711_TIMEOUT_COUNT + 2),
        events := events stuck_high @ concat (replicate 1 timeout_cycle_events)\<rparr>"
    by (intro timeout_cycles_high) simp
  ultimately have "events (snd (hx711_read_with_retry 1 stuck_high)) = timeout_cycle_events"
    by simp
  then show ?thesis
    by (simp add: timeout_cycle_events_def timeout_read_events_def recovery_events_def)
qed

text \<open>
  C6: for every \<open>max_retries \<ge> 1\<close>, if the first \<open>k\<close> attempts return a sentinel and
  attempt \<open>k + 1\<close> (one of the \<open>max_retries\<close> allowed) returns a value that is neither
  sentinel, then \<open>hx711_read_with_retry\<close> returns that value unchanged and leaves the
  lines in the state in which that read left them: no recovery step, no delay and no
  further attempt come after it.
\<close>

theorem retry_returns_first_valid:
  assumes "k < unat max_retries"
    and "\<forall>i<k. fst (hx711_read_improved ((failed_cycle ^^ i) s)) = INT32_MIN \<or>
           fst (hx711_read_improved ((failed_cycle ^^ i) s)) = INT32_MAX"
    and "fst (hx711_read_improved ((failed_cycle ^^ k) s)) \<noteq> INT32_MIN"
    and "fst (hx711_read_improved ((failed_cycle ^^ k) s)) \<noteq> INT32_MAX"
  shows "hx711_read_with_retry max_retries s =
     (Some (fst (hx711_read_improved ((failed_cycle ^^ k) s))),
      snd (hx711_read_improved ((failed_cycle ^^ k) s)))"
  using assms by (intro hx711_read_with_retry_first_success) simp_all

theorem retry_returns_first_valid_witness:
  "2 < unat (3 :: 8 word) \<and>
   fst (hx711_read_improved
        ((failed_cycle ^^ 0) (sends_frame_after (2 * (HX711_TIMEOUT_COUNT + 2)) 0x123456))) = INT32_MIN \<and>
   fst (hx711_read_improved
        ((failed_cycle ^^ 1) (sends_frame_after (2 * (HX711_TIMEOUT_COUNT + 2)) 0x123456))) = INT32_MIN \<and>
   fst (hx711_read_improved
        ((failed_cycle ^^ 2) (sends_frame_after (2 * (HX711_TIMEOUT_COUNT + 2)) 0x123456))) \<noteq> INT32_MIN \<and>
   fst (hx711_read_improved
        ((failed_cycle ^^ 2) (sends_frame_after (2 * (HX711_TIMEOUT_COUNT + 2)) 0x123456))) \<noteq> INT32_MAX \<and>
   hx711_read_with_retry 3 (sends_frame_after (2 * (HX711_TIMEOUT_COUNT + 2)) 0x123456) =
     (Some (fst (hx711_read_improved
        ((failed_cycle ^^ 2) (sends_frame_after (2 * (HX711_TIMEOUT_COUNT + 2)) 0x123456)))),
      snd (hx711_read_improved
        ((failed_cycle ^^ 2) (sends_frame_after (2 * (HX711_TIMEOUT_COUNT + 2)) 0x123456)))) \<and>
   sint (fst (hx711_read_improved
        ((failed_cycle ^^ 2) (sends_frame_after (2 * (HX711_TIMEOUT_COUNT + 2)) 0x123456)))) = 0x123456"
proof -
  let ?S = "sends_frame_after (2 * (HX711_TIMEOUT_COUNT + 2)) 0x123456"
  let ?r = "fst (hx711_read_improved ((failed_cycle ^^ 2) ?S))"
  have t: "fst (hx711_read_improved ((failed_cycle ^^ i) ?S)) = INT32_MIN" if "i < 2" for i
    using that by (intro two_timeouts_then_frame(1)) simp_all
  then have fails: "\<forall>i<2. fst (hx711_read_improved ((failed_cycle ^^ i) ?S)) = INT32_MIN \<or>
      fst (hx711_read_improved ((failed_cycle ^^ i) ?S)) = INT32_MAX"
    by simp
  have val: "sint ?r = 0x123456"
    by (rule two_timeouts_then_frame(2)) simp_all
  have ok: "?r \<noteq> INT32_MIN" "?r \<noteq> INT32_MAX"
    using val by (auto simp: sint_INT32_MIN sint_INT32_MAX)
  have three: "2 < unat (3 :: 8 word)" by simp
  have t0: "fst (hx711_read_improved ((failed_cycle ^^ 0) ?S)) = INT32_MIN"
    by (rule t) simp
  have t1: "fst (hx711_read_improved ((failed_cycle ^^ 1) ?S)) = INT32_MIN"
    by (rule t) simp
  show ?thesis
    using retry_returns_first_valid [of 2 3 ?S, OF three fails ok] three t0 t1 ok val
    by (intro conjI)
qed

text \<open>
  C10: with \<open>max_retries = 0\<close> the loop body never runs, nothing is done to the lines,
  and the value returned is the local \<open>result\<close> that was never assigned; with
  \<open>max_retries \<ge> 1\<close> the value returned has been assigned by an attempt.
\<close>

theorem retry_zero_unassigned:
  "hx711_read_with_retry 0 s = (None, s) \<and>
   (1 \<le> max_retries \<longrightarrow> fst (hx711_read_with_retry max_retries s) \<noteq> None)"
  using hx711_read_with_retry_assigned [of max_retries s]
  by (simp add: hx711_read_with_retry_def retry_loop_done)

theorem retry_zero_unassigned_witness:
  "hx711_read_with_retry 0 stuck_high = (None, stuck_high) \<and> (1 :: 8 word) \<le> 3 \<and>
   fst (hx711_read_with_retry 3 stuck_high) \<noteq> None"
  using retry_zero_unassigned [of stuck_high 3] by simp

section \<open>The periodic sampling callback\<close>

text \<open>
  C8: the callback always completes. After a successful read the consecutive-error
  counter is 0 whatever it was before. After a failed read the counter is one more than
  before, unless that reaches the threshold 5: then the callback runs \<open>hx711_init\<close> once
  on the lines as the read left them (which changes them) and the counter is 0.
\<close>

theorem callback_error_counter:
  "max_consecutive_errors = 5 \<and>
   map_option consecutive_errors (app_adcval1_timer_cb_handler_improved a) =
     Some (if fst (hx711_read_with_retry 3 (gpio a)) = Some INT32_MIN \<or>
              fst (hx711_read_with_retry 3 (gpio a)) = Some INT32_MAX
           then (if 5 \<le> consecutive_errors a + 1 then 0 else consecutive_errors a + 1)
           else 0) \<and>
   map_option gpio (app_adcval1_timer_cb_handler_improved a) =
     Some (if (fst (hx711_read_with_retry 3 (gpio a)) = Some INT32_MIN \<or>
               fst (hx711_read_with_retry 3 (gpio a)) = Some INT32_MAX) \<and>
              5 \<le> consecutive_errors a + 1
           then hx711_init (snd (hx711_read_with_retry 3 (gpio a)))
           else snd (hx711_read_with_retry 3 (gpio a))) \<and>
   hx711_init (snd (hx711_read_with_retry 3 (gpio a))) \<noteq> snd (hx711_read_with_retry 3 (gpio a))"
proof -
  let ?g = "snd (hx711_read_with_retry 3 (gpio a))"
  obtain hx where r: "hx711_read_with_retry 3 (gpio a) = (Some hx, ?g)"
    using hx711_read_with_retry_3_assigned [of "gpio a"] ..
  have init: "hx711_init ?g \<noteq> ?g"
    using polls_hx711_init [of ?g] by auto
  have five: "max_consecutive_errors = 5"
    by (simp add: max_consecutive_errors_def)
  show ?thesis
  proof (cases "hx = INT32_MIN \<or> hx = INT32_MAX")
    case True
    have fst_r: "fst (hx711_read_with_retry 3 (gpio a)) = Some hx"
      using r by (simp add: prod_eq_iff)
    show ?thesis
      using True init five
      by (simp only: callback_failure [OF r True] fst_r) auto
  next
    case False
    then have ok: "hx \<noteq> INT32_MIN" "hx \<noteq> INT32_MAX" by simp_all
    have fst_r: "fst (hx711_read_with_retry 3 (gpio a)) = Some hx"
      using r by (simp add: prod_eq_iff)
    show ?thesis
      using ok init five
      by (simp only: callback_success [OF r ok] fst_r) auto
  qed
qed

theorem callback_error_counter_witness:
  "map_option consecutive_errors
     (app_adcval1_timer_cb_handler_improved
        ((app_start stuck_high APP_CONNECTED)\<lparr>consecutive_errors := 4\<rparr>)) = Some 0 \<and>
   map_option gpio
     (app_adcval1_timer_cb_handler_improved
        ((app_start stuck_high APP_CONNECTED)\<lparr>consecutive_errors := 4\<rparr>)) =
     Some (hx711_init (snd (hx711_read_with_retry 3 stuck_high))) \<and>
   map_option consecutive_errors
     (app_adcval1_timer_cb_handler_improved
        ((app_start stuck_high APP_CONNECTED)\<lparr>consecutive_errors := 3\<rparr>)) = Some 4 \<and>
   map_option gpio
     (app_adcval1_timer_cb_handler_improved
        ((app_start stuck_high APP_CONNECTED)\<lparr>consecutive_errors := 3\<rparr>)) =
     Some (snd (hx711_read_with_retry 3 stuck_high))"
proof -
  have "hx711_read_with_retry 3 stuck_high =
      (Some INT32_MIN, (timeout_cycle ^^ unat (3 :: 8 word)) stuck_high)"
    by (rule hx711_read_with_retry_stuck_high) simp_all
  then have r: "fst (hx711_read_with_retry 3 stuck_high) = Some INT32_MIN"
    by simp
  show ?thesis
    using callback_error_counter [of "(app_start stuck_high APP_CONNECTED)\<lparr>consecutive_errors := 4\<rparr>"]
      callback_error_counter [of "(app_start stuck_high APP_CONNECTED)\<lparr>consecutive_errors := 3\<rparr>"]
    by (simp add: app_start_def r)
qed

text \<open>
  C1 does not hold on the failure path. First cycle: connected, the read succeeds, the
  callback reschedules and stores handle 0. The connection state then becomes
  not-connected and DOUT stays high, so the second cycle fails: the callback creates no
  new timer, but \<open>adc_timer\<close> still holds handle 0, not the invalid-timer sentinel. Only
  the success path assigns \<open>EASY_TIMER_INVALID_TIMER\<close> (see \<open>callback_not_connected\<close>).
\<close>

theorem stale_timer_after_failed_cycle:
  "map_option adc_timer
     (app_adcval1_timer_cb_handler_improved
        (app_start (sends_frame_after 0 0x123456) APP_CONNECTED)) = Some (Timer_Handle 0) \<and>
   map_option adc_timer
     (Option.bind
        (app_adcval1_timer_cb_handler_improved
           (app_start (sends_frame_after 0 0x123456) APP_CONNECTED))
        (\<lambda>a. app_adcval1_timer_cb_handler_improved (a\<lparr>app_state := APP_NOT_CONNECTED\<rparr>))) =
     Some (Timer_Handle 0) \<and>
   map_option timers_created
     (Option.bind
        (app_adcval1_timer_cb_handler_improved
           (app_start (sends_frame_after 0 0x123456) APP_CONNECTED))
        (\<lambda>a. app_adcval1_timer_cb_handler_improved (a\<lparr>app_state := APP_NOT_CONNECTED\<rparr>))) =
     Some 1 \<and>
   Timer_Handle 0 \<noteq> EASY_TIMER_INVALID_TIMER"
proof -
  let ?S = "sends_frame_after 0 0x123456"
  let ?a0 = "app_start ?S APP_CONNECTED"
  let ?hx = "fst (hx711_read_improved ?S)"
  let ?g = "snd (hx711_read_improved ?S)"
  have r1: "hx711_read_with_retry 3 (gpio ?a0) = (Some ?hx, ?g)"
    using first_cycle_reads_frame(1) [of "0x123456"] by (simp add: app_start_def)
  have ok: "?hx \<noteq> INT32_MIN" "?hx \<noteq> INT32_MAX"
    by (rule first_cycle_reads_frame; simp)+
  let ?a1 = "?a0\<lparr>gpio := ?g,
            adc_timer := (if app_state ?a0 = APP_CONNECTED then next_timer ?a0 (timers_created ?a0)
                          else EASY_TIMER_INVALID_TIMER),
            consecutive_errors := 0,
            adc_val_1 := ?hx,
            timers_created := (if app_state ?a0 = APP_CONNECTED then Suc (timers_created ?a0)
                               else timers_created ?a0),
            ble_events := ble_events ?a0 @ [Msg_Alloc, Att_Set_Value (bswap32 ?hx), Msg_Send (bswap32 ?hx)]\<rparr>"
  have c1: "app_adcval1_timer_cb_handler_improved ?a0 = Some ?a1"
    using r1 ok by (rule callback_success)
  let ?a1' = "?a1\<lparr>app_state := APP_NOT_CONNECTED\<rparr>"
  have "hx711_read_with_retry 3 ?g = (Some INT32_MIN, (timeout_cycle ^^ unat (3 :: 8 word)) ?g)"
  proof (rule hx711_read_with_retry_stuck_high)
    show "(1 :: 8 word) \<le> 3" by simp
    show "dout ?g (polls ?g + k)" for k
      by (rule first_cycle_reads_frame(4)) simp_all
  qed
  then have r2: "hx711_read_with_retry 3 (gpio ?a1') =
      (Some INT32_MIN, (timeout_cycle ^^ unat (3 :: 8 word)) ?g)"
    by simp
  have fail: "INT32_MIN = INT32_MIN \<or> INT32_MIN = INT32_MAX"
    by simp
  have c2: "map_option adc_timer (app_adcval1_timer_cb_handler_improved ?a1') = Some (Timer_Handle 0)"
    "map_option timers_created (app_adcval1_timer_cb_handler_improved ?a1') = Some 1"
    by (simp_all only: callback_failure [OF r2 fail]) (simp_all add: app_start_def)
  have c1': "map_option adc_timer (app_adcval1_timer_cb_handler_improved ?a0) = Some (Timer_Handle 0)"
    by (simp only: c1) (simp add: app_start_def)
  have "Timer_Handle 0 \<noteq> EASY_TIMER_INVALID_TIMER"
    by simp
  with c1' c2 show ?thesis
    by (simp only: c1 bind.bind_lunit simp_thms)
qed

end
